theory Spec2Isabelle
  imports Complex_Main "HOL-Library.Sublist"
begin

section \<open>Text primitives of the host language\<close>

text \<open>
  The pane text is a Python \<open>str\<close>; it is modelled as a \<open>string\<close>, a list of characters
  with the code points 0 to 255.
  The operations below are the ones \<open>tmux_wrapper.py\<close> applies to it:
  \<open>s.split('\n')\<close>, \<open>'\n'.join(ls)\<close>, \<open>sub in s\<close>, \<open>s.endswith(p)\<close> and \<open>s.strip()\<close>.
\<close>

definition newline :: char where
  "newline = CHR 0x0A"

text \<open>\<open>s.split('\n')\<close>: every newline ends a piece, the empty string gives one empty piece.\<close>

fun split_nl :: "string \<Rightarrow> string list" where
  "split_nl [] = [[]]"
| "split_nl (c # cs) =
     (if c = newline then [] # split_nl cs
      else (case split_nl cs of
              [] \<Rightarrow> [[c]]
            | l # ls \<Rightarrow> (c # l) # ls))"

text \<open>\<open>'\n'.join(ls)\<close>.\<close>

fun join_nl :: "string list \<Rightarrow> string" where
  "join_nl [] = []"
| "join_nl [l] = l"
| "join_nl (l # m # ls) = l @ newline # join_nl (m # ls)"

text \<open>\<open>sub in s\<close>: \<open>sub\<close> occurs in \<open>s\<close> as a contiguous substring.\<close>

fun str_in :: "string \<Rightarrow> string \<Rightarrow> bool" where
  "str_in sub [] = (sub = [])"
| "str_in sub (c # cs) = (prefix sub (c # cs) \<or> str_in sub cs)"

text \<open>\<open>s.endswith(p)\<close>.\<close>

definition endswith :: "string \<Rightarrow> string \<Rightarrow> bool" where
  "endswith s p = (length p \<le> length s \<and> drop (length s - length p) s = p)"

text \<open>
  \<open>s.strip()\<close> removes the characters for which \<open>str.isspace\<close> holds from both ends:
  tab to carriage return, the four separators \<open>0x1C\<close> to \<open>0x1F\<close>, the space,
  \<open>0x85\<close> and \<open>0xA0\<close>.
\<close>

definition isspace :: "char \<Rightarrow> bool" where
  "isspace c = (let n = (of_char c :: nat) in
     (9 \<le> n \<and> n \<le> 13) \<or> (28 \<le> n \<and> n \<le> 32) \<or> n = 133 \<or> n = 160)"

definition strip :: "string \<Rightarrow> string" where
  "strip s = rev (dropWhile isspace (rev (dropWhile isspace s)))"

section \<open>Output window: \<open>_trim_output_to_command\<close>\<close>

text \<open>
  The loop \<open>for idx in range(len(lines) - 1, -1, -1)\<close>: \<open>scan_back command lines n\<close> visits
  the indices \<open>n - 1\<close>, \<open>n - 2\<close>, ..., \<open>0\<close> and stops at the first line that contains
  the command.
\<close>

fun scan_back :: "string \<Rightarrow> string list \<Rightarrow> nat \<Rightarrow> nat option" where
  "scan_back command lines 0 = None"
| "scan_back command lines (Suc idx) =
     (if str_in command (lines ! idx) then Some idx
      else scan_back command lines idx)"

text \<open>
  \<open>not command\<close> holds for \<open>None\<close> and for the empty string, \<open>not output\<close> for the empty
  string.
\<close>

definition trim_output_to_command :: "string \<Rightarrow> string option \<Rightarrow> string" where
  "trim_output_to_command output command =
     (case command of
        None \<Rightarrow> output
      | Some cmd \<Rightarrow>
          if cmd = [] \<or> output = [] then output
          else (let lines = split_nl output in
                case scan_back cmd lines (length lines) of
                  Some idx \<Rightarrow> join_nl (drop idx lines)
                | None \<Rightarrow> output))"

section \<open>Text sanitizer: \<open>strip_ansi_escape_sequences\<close>\<close>

text \<open>
  \<open>ANSI_ESCAPE_PATTERN\<close> is the regular expression \<open>\x1B[@-_][0-?]*[ -/]*[@-~]\<close>: the
  escape byte, one byte of \<open>@\<close>..\<open>_\<close>, a run of bytes of \<open>0\<close>..\<open>?\<close>, a run of bytes of
  space..\<open>/\<close>, and one byte of \<open>@\<close>..\<open>~\<close>.
\<close>

definition ESC :: char where
  "ESC = CHR 0x1B"

definition in_range :: "nat \<Rightarrow> nat \<Rightarrow> char \<Rightarrow> bool" where
  "in_range lo hi c = (lo \<le> of_char c \<and> of_char c \<le> hi)"

definition is_esc :: "char \<Rightarrow> bool" where
  "is_esc c = (c = ESC)"

definition is_second :: "char \<Rightarrow> bool" where
  "is_second = in_range 0x40 0x5F"

definition is_param :: "char \<Rightarrow> bool" where
  "is_param = in_range 0x30 0x3F"

definition is_inter :: "char \<Rightarrow> bool" where
  "is_inter = in_range 0x20 0x2F"

definition is_final :: "char \<Rightarrow> bool" where
  "is_final = in_range 0x40 0x7E"

text \<open>
  The matcher of the regular-expression engine, in continuation-passing style: each piece
  of the pattern takes the matcher \<open>k\<close> of what follows it and the text at the current
  position, and gives the text left after the whole match, or \<open>None\<close>. A starred class is
  greedy and backtracks: it first tries to take one more character, and falls back to the
  continuation at the current position when that fails.
\<close>

fun match_class :: "(char \<Rightarrow> bool) \<Rightarrow> (string \<Rightarrow> string option) \<Rightarrow> string \<Rightarrow> string option" where
  "match_class P k [] = None"
| "match_class P k (c # cs) = (if P c then k cs else None)"

fun match_star :: "(char \<Rightarrow> bool) \<Rightarrow> (string \<Rightarrow> string option) \<Rightarrow> string \<Rightarrow> string option" where
  "match_star P k [] = k []"
| "match_star P k (c # cs) =
     (if P c then (case match_star P k cs of
                     Some rest \<Rightarrow> Some rest
                   | None \<Rightarrow> k (c # cs))
      else k (c # cs))"

definition match_ansi :: "string \<Rightarrow> string option" where
  "match_ansi =
     match_class is_esc (match_class is_second
       (match_star is_param (match_star is_inter (match_class is_final Some))))"

text \<open>
  \<open>ANSI_ESCAPE_PATTERN.sub("", text)\<close>: scanning from the left, a match at the current
  position is dropped and the scan goes on after it; otherwise the character is kept.
\<close>

function strip_ansi_escape_sequences :: "string \<Rightarrow> string" where
  "strip_ansi_escape_sequences [] = []"
| "strip_ansi_escape_sequences (c # cs) =
     (case match_ansi (c # cs) of
        Some rest \<Rightarrow> strip_ansi_escape_sequences rest
      | None \<Rightarrow> c # strip_ansi_escape_sequences cs)"
  by pat_completeness auto
termination
proof (relation "measure length")
  show "wf (measure length)" by simp
next
  fix c :: char and cs rest :: string
  assume m: "match_ansi (c # cs) = Some rest"
  have star: "length r \<le> length xs"
    if "match_star P k xs = Some r" and "\<And>ys q. k ys = Some q \<Longrightarrow> length q \<le> length ys"
    for P k xs r
    using that
  proof (induction xs)
    case Nil
    then have "k [] = Some r" by simp
    then show ?case by (rule Nil.prems(2))
  next
    case (Cons y ys)
    show ?case
    proof (cases "P y \<and> match_star P k ys \<noteq> None")
      case True
      with Cons.prems(1) have "match_star P k ys = Some r" by auto
      from Cons.IH [OF this Cons.prems(2)] show ?thesis by simp
    next
      case False
      with Cons.prems(1) have "k (y # ys) = Some r" by (auto split: if_splits option.splits)
      then show ?thesis by (rule Cons.prems(2))
    qed
  qed
  have cls: "length r \<le> length xs"
    if "match_class P k xs = Some r" and "\<And>ys q. k ys = Some q \<Longrightarrow> length q \<le> length ys"
    for P k xs r
  proof (cases xs)
    case Nil
    with that(1) show ?thesis by simp
  next
    case (Cons y ys)
    with that(1) have "k ys = Some r" by (auto split: if_splits)
    from that(2) [OF this] Cons show ?thesis by simp
  qed
  have fin: "length q \<le> length ys" if "match_class is_final Some ys = Some q" for ys q
    using that by (rule cls) simp
  have inter: "length q \<le> length ys"
    if "match_star is_inter (match_class is_final Some) ys = Some q" for ys q
    using that by (rule star) (rule fin)
  have param: "length q \<le> length ys"
    if "match_star is_param (match_star is_inter (match_class is_final Some)) ys = Some q"
    for ys q
    using that by (rule star) (rule inter)
  from m have "match_class is_second
       (match_star is_param (match_star is_inter (match_class is_final Some))) cs = Some rest"
    by (simp add: match_ansi_def split: if_splits)
  then have "length rest \<le> length cs"
    by (rule cls) (rule param)
  then show "(rest, c # cs) \<in> measure length" by simp
next
  fix c :: char and cs :: string
  show "(cs, c # cs) \<in> measure length" by simp
qed

text \<open>
  Every escape byte of the text starts a complete escape sequence: at each position that
  holds the escape byte, the pattern matches.
\<close>

fun escapes_complete :: "string \<Rightarrow> bool" where
  "escapes_complete [] = True"
| "escapes_complete (c # cs) =
     ((is_esc c \<longrightarrow> match_ansi (c # cs) \<noteq> None) \<and> escapes_complete cs)"

section \<open>Session probe: \<open>capture_tmux_output\<close> and \<open>session_exists\<close>\<close>

text \<open>
  \<open>subprocess.run(argv, capture_output=True, text=True, ...)\<close> either returns a
  \<open>CompletedProcess\<close> or raises. The exceptions the source names are \<open>TimeoutExpired\<close>
  and \<open>CalledProcessError\<close>; any other one (for instance \<open>FileNotFoundError\<close>, raised when
  the \<open>tmux\<close> binary cannot be started) is \<open>OtherError\<close> with its class name. The outcome
  of a call is decided by the world outside the program, so it is a parameter \<open>run\<close> of
  the functions that make the call.
\<close>

datatype exn = TimeoutExpired | CalledProcessError | OtherError string

record completed_process =
  returncode :: int
  stdout :: string
  stderr :: string

type_synonym run_result = "exn + completed_process"

type_synonym subprocess = "string list \<Rightarrow> run_result"

text \<open>Decimal rendering of an integer, as the f-string \<open>f"-{lines}"\<close> does.\<close>

definition digit_char :: "nat \<Rightarrow> char" where
  "digit_char d = char_of (48 + d)"

function str_nat :: "nat \<Rightarrow> string" where
  "str_nat n = (if n < 10 then [digit_char n] else str_nat (n div 10) @ [digit_char (n mod 10)])"
  by pat_completeness auto
termination
  by (relation "measure (\<lambda>n. n)") auto

definition str_int :: "int \<Rightarrow> string" where
  "str_int i = (if i < 0 then CHR ''-'' # str_nat (nat (- i)) else str_nat (nat i))"

text \<open>The argument vectors of the two probes.\<close>

definition capture_argv :: "string \<Rightarrow> int \<Rightarrow> string list" where
  "capture_argv session_name lines =
     [''tmux'', ''capture-pane'', ''-t'', session_name, ''-p'', ''-S'', CHR ''-'' # str_int lines]"

definition exists_argv :: "string \<Rightarrow> string list" where
  "exists_argv session_name = [''tmux'', ''has-session'', ''-t'', session_name]"

text \<open>
  \<open>capture_tmux_output\<close>: the \<open>try\<close> block returns \<open>result.stdout\<close>; the two \<open>except\<close>
  clauses catch \<open>TimeoutExpired\<close> and \<open>CalledProcessError\<close> and return the empty string;
  no clause catches anything else.
\<close>

definition capture_tmux_output :: "subprocess \<Rightarrow> string \<Rightarrow> int \<Rightarrow> exn + string" where
  "capture_tmux_output run session_name lines =
     (case run (capture_argv session_name lines) of
        Inr result \<Rightarrow> Inr (stdout result)
      | Inl TimeoutExpired \<Rightarrow> Inr []
      | Inl CalledProcessError \<Rightarrow> Inr []
      | Inl (OtherError name) \<Rightarrow> Inl (OtherError name))"

definition session_exists :: "subprocess \<Rightarrow> string \<Rightarrow> exn + bool" where
  "session_exists run session_name =
     (case run (exists_argv session_name) of
        Inr result \<Rightarrow> Inr (returncode result = 0)
      | Inl e \<Rightarrow> Inl e)"

text \<open>
  Two worlds used as concrete inputs below: one in which the \<open>tmux\<close> binary cannot be
  started, and one in which \<open>has-session\<close> exits with status 0 or 1 according to \<open>alive\<close>
  and \<open>capture-pane\<close> prints \<open>pane\<close>.
\<close>

definition tmux_missing :: subprocess where
  "tmux_missing argv = Inl (OtherError ''FileNotFoundError'')"

definition tmux_pane :: "bool \<Rightarrow> string \<Rightarrow> subprocess" where
  "tmux_pane alive pane argv =
     (if take 2 argv = [''tmux'', ''has-session'']
      then Inr \<lparr>returncode = (if alive then 0 else 1), stdout = [], stderr = []\<rparr>
      else Inr \<lparr>returncode = 0, stdout = pane, stderr = []\<rparr>)"

section \<open>Completion poller: \<open>wait_for_output_completion\<close>\<close>

definition prompt_patterns :: "string list" where
  "prompt_patterns = [''pry(main)>'', '']$'', '']#'', ''#'', ''$'']"

text \<open>
  One iteration of \<open>while True\<close> reads the clock once and calls \<open>tmux\<close> through
  \<open>subprocess.run\<close>: \<open>elapsed\<close> is \<open>time.time() - start_time\<close> at that iteration and
  \<open>run\<close> the outcome of the calls made during it.
\<close>

record tick =
  elapsed :: real
  run :: subprocess

record poll_state =
  last_output :: string
  output_changed :: bool
  command_seen :: bool

text \<open>\<open>command_sent and command_sent in text\<close>.\<close>

definition command_in :: "string option \<Rightarrow> string \<Rightarrow> bool" where
  "command_in command_sent text =
     (case command_sent of
        None \<Rightarrow> False
      | Some cmd \<Rightarrow> cmd \<noteq> [] \<and> str_in cmd text)"

text \<open>The state before the loop, from the caller's baseline or from a first capture.\<close>

definition initial_state ::
  "subprocess \<Rightarrow> string \<Rightarrow> string option \<Rightarrow> string option \<Rightarrow> exn + poll_state" where
  "initial_state run0 session_name command_sent pre_command_output =
     (case (case pre_command_output of
              Some pre \<Rightarrow> Inr pre
            | None \<Rightarrow> capture_tmux_output run0 session_name 100) of
        Inl e \<Rightarrow> Inl e
      | Inr initial_output \<Rightarrow>
          Inr \<lparr>last_output = initial_output,
               output_changed = (pre_command_output = None),
               command_seen = command_in command_sent initial_output\<rparr>)"

text \<open>The two latch updates of an iteration, on the capture \<open>current_output\<close>.\<close>

definition observe :: "string option \<Rightarrow> poll_state \<Rightarrow> string \<Rightarrow> poll_state" where
  "observe command_sent st current_output =
     (let seen = (if command_in command_sent current_output \<and> \<not> command_seen st then True
                  else command_seen st);
          (changed, last) = (if current_output \<noteq> last_output st then (True, current_output)
                             else (output_changed st, last_output st))
      in \<lparr>last_output = last, output_changed = changed, command_seen = seen\<rparr>)"

definition check_prompts :: "poll_state \<Rightarrow> string \<Rightarrow> bool" where
  "check_prompts st trimmed_output =
     ((output_changed st \<or> command_seen st) \<and> trimmed_output \<noteq> [])"

text \<open>
  \<open>trimmed_output.strip().split('\n')[-1].strip() if trimmed_output.strip() else ""\<close>,
  then sanitized.
\<close>

definition clean_last_line :: "string \<Rightarrow> string" where
  "clean_last_line trimmed_output =
     strip_ansi_escape_sequences
       (if strip trimmed_output \<noteq> [] then strip (last (split_nl (strip trimmed_output)))
        else [])"

text \<open>The loop over the patterns: the first pattern the line ends with.\<close>

fun match_prompt :: "string \<Rightarrow> string list \<Rightarrow> string option" where
  "match_prompt line [] = None"
| "match_prompt line (pattern # patterns) =
     (if endswith line pattern then Some pattern else match_prompt line patterns)"

datatype step = Return "string \<times> bool \<times> bool" | Raise exn | Continue poll_state

definition poll_tick ::
  "string \<Rightarrow> string option \<Rightarrow> int \<Rightarrow> poll_state \<Rightarrow> tick \<Rightarrow> step" where
  "poll_tick session_name command_sent max_wait_sec st t =
     (if elapsed t > real_of_int max_wait_sec then
        (case capture_tmux_output (run t) session_name 100 of
           Inl e \<Rightarrow> Raise e
         | Inr current_output \<Rightarrow>
             Return (trim_output_to_command current_output command_sent, True, False))
      else
        (case session_exists (run t) session_name of
           Inl e \<Rightarrow> Raise e
         | Inr alive \<Rightarrow>
             if \<not> alive then
               (case capture_tmux_output (run t) session_name 100 of
                  Inl e \<Rightarrow> Raise e
                | Inr current_output \<Rightarrow>
                    Return (trim_output_to_command current_output command_sent, False, True))
             else
               (case capture_tmux_output (run t) session_name 100 of
                  Inl e \<Rightarrow> Raise e
                | Inr current_output \<Rightarrow>
                    (let st' = observe command_sent st current_output;
                         trimmed_output = trim_output_to_command current_output command_sent
                     in if check_prompts st' trimmed_output then
                          (case match_prompt (clean_last_line trimmed_output) prompt_patterns of
                             Some pattern \<Rightarrow>
                               Return (trim_output_to_command current_output command_sent,
                                       False, False)
                           | None \<Rightarrow> Continue st')
                        else Continue st'))))"

text \<open>
  The loop over a finite sequence of iterations: \<open>None\<close> when none of them returned, that
  is, when the loop is still running after the last one.
\<close>

fun poll_loop ::
  "string \<Rightarrow> string option \<Rightarrow> int \<Rightarrow> poll_state \<Rightarrow> tick list
     \<Rightarrow> (exn + string \<times> bool \<times> bool) option" where
  "poll_loop session_name command_sent max_wait_sec st [] = None"
| "poll_loop session_name command_sent max_wait_sec st (t # ts) =
     (case poll_tick session_name command_sent max_wait_sec st t of
        Return r \<Rightarrow> Some (Inr r)
      | Raise e \<Rightarrow> Some (Inl e)
      | Continue st' \<Rightarrow> poll_loop session_name command_sent max_wait_sec st' ts)"

definition wait_for_output_completion ::
  "subprocess \<Rightarrow> tick list \<Rightarrow> string \<Rightarrow> string option \<Rightarrow> int \<Rightarrow> string option
     \<Rightarrow> (exn + string \<times> bool \<times> bool) option" where
  "wait_for_output_completion run0 ticks session_name command_sent max_wait_sec
       pre_command_output =
     (case initial_state run0 session_name command_sent pre_command_output of
        Inl e \<Rightarrow> Some (Inl e)
      | Inr st \<Rightarrow> poll_loop session_name command_sent max_wait_sec st ticks)"

text \<open>The values the poll state takes, one per iteration entered and the last one left.\<close>

fun poll_states ::
  "string \<Rightarrow> string option \<Rightarrow> int \<Rightarrow> poll_state \<Rightarrow> tick list \<Rightarrow> poll_state list" where
  "poll_states session_name command_sent max_wait_sec st [] = [st]"
| "poll_states session_name command_sent max_wait_sec st (t # ts) =
     st # (case poll_tick session_name command_sent max_wait_sec st t of
             Continue st' \<Rightarrow> poll_states session_name command_sent max_wait_sec st' ts
           | _ \<Rightarrow> [])"

text \<open>
  Concrete iterations and states used as inputs below: a shell session \<open>main\<close> to which
  \<open>echo hi\<close> is sent while the pane shows the prompt \<open>user@host:~$\<close>.
\<close>

definition tick_late_and_gone :: tick where
  "tick_late_and_gone = \<lparr>elapsed = 20.05, run = tmux_pane False ''bye''\<rparr>"

definition pane_after_echo :: string where
  "pane_after_echo = ''user@host:~$ echo hi'' @ [newline] @ ''hi'' @ [newline] @ ''user@host:~$ ''"

definition tick_prompt_back :: tick where
  "tick_prompt_back = \<lparr>elapsed = 0.3, run = tmux_pane True pane_after_echo\<rparr>"

definition tick_stale_prompt :: tick where
  "tick_stale_prompt = \<lparr>elapsed = 0.1, run = tmux_pane True ''user@host:~$ ''\<rparr>"

definition tick_running :: tick where
  "tick_running = \<lparr>elapsed = 0.2, run = tmux_pane True ''user@host:~$ echo hi''\<rparr>"

definition state_sent :: poll_state where
  "state_sent = \<lparr>last_output = ''user@host:~$ '', output_changed = False, command_seen = False\<rparr>"







text \<open>
  A world in which every \<open>tmux\<close> call exceeds its timeout, a text in which an escape
  byte stands in front of an escape sequence, and a prompt with two colour sequences.
\<close>

definition tmux_hangs :: subprocess where
  "tmux_hangs argv = Inl TimeoutExpired"

definition nested_escape :: string where
  "nested_escape = [ESC, ESC, CHR ''['', CHR ''m'', CHR ''['', CHR ''m'']"

definition coloured_prompt :: string where
  "coloured_prompt = [ESC] @ ''[1;32muser@host'' @ [ESC] @ ''[0m:~$''"

section \<open>Facts about splitting and joining\<close>

lemma split_nl_not_Nil: "split_nl s \<noteq> []"
  by (induction s) (auto split: list.splits)

lemma join_nl_Cons: "ls \<noteq> [] \<Longrightarrow> join_nl (l # ls) = l @ newline # join_nl ls"
  by (cases ls) simp_all

lemma join_split_nl: "join_nl (split_nl s) = s"
proof (induction s)
  case Nil
  show ?case by simp
next
  case (Cons c cs)
  show ?case
  proof (cases "c = newline")
    case True
    with Cons show ?thesis
      by (simp add: join_nl_Cons split_nl_not_Nil)
  next
    case False
    obtain l ls where sp: "split_nl cs = l # ls"
      using split_nl_not_Nil [of cs] by (cases "split_nl cs") auto
    have "join_nl ((c # l) # ls) = c # join_nl (l # ls)"
      by (cases ls) simp_all
    with Cons False sp show ?thesis by simp
  qed
qed

lemma suffix_join_drop: "suffix (join_nl (drop k ls)) (join_nl ls)"
proof (induction ls arbitrary: k)
  case Nil
  show ?case by simp
next
  case (Cons l ls)
  show ?case
  proof (cases k)
    case 0
    then show ?thesis by simp
  next
    case (Suc j)
    have "suffix (join_nl (drop j ls)) (join_nl ls)" by (rule Cons.IH)
    moreover have "suffix (join_nl ls) (join_nl (l # ls))"
    proof (cases ls)
      case Nil
      then show ?thesis by simp
    next
      case (Cons m ms)
      then show ?thesis
        by (simp add: suffix_def)
    qed
    ultimately show ?thesis
      using Suc by (auto intro: suffix_order.trans)
  qed
qed

lemma str_in_nonempty: "str_in sub s \<Longrightarrow> sub \<noteq> [] \<Longrightarrow> s \<noteq> []"
  by (cases s) auto

lemma scan_back_Some:
  "scan_back command lines n = Some idx \<Longrightarrow>
     idx < n \<and> str_in command (lines ! idx) \<and>
     (\<forall>j. idx < j \<and> j < n \<longrightarrow> \<not> str_in command (lines ! j))"
proof (induction n)
  case 0
  then show ?case by simp
next
  case (Suc n)
  show ?case
  proof (cases "str_in command (lines ! n)")
    case True
    with Suc.prems show ?thesis by auto
  next
    case False
    with Suc.prems have "scan_back command lines n = Some idx" by simp
    from Suc.IH [OF this] False show ?thesis
      by (auto simp: less_Suc_eq)
  qed
qed

lemma scan_back_None:
  "scan_back command lines n = None \<longleftrightarrow> (\<forall>j < n. \<not> str_in command (lines ! j))"
  by (induction n) (auto simp: less_Suc_eq)


section \<open>The output window\<close>

lemma join_nl_nonempty: "l \<noteq> [] \<Longrightarrow> join_nl (l # ls) \<noteq> []"
  by (cases ls) simp_all

lemma trim_cases:
  "trim_output_to_command output command = output \<or>
   (\<exists>cmd idx. command = Some cmd \<and> cmd \<noteq> [] \<and> output \<noteq> [] \<and>
      scan_back cmd (split_nl output) (length (split_nl output)) = Some idx \<and>
      trim_output_to_command output command = join_nl (drop idx (split_nl output)))"
  by (auto simp: trim_output_to_command_def Let_def split: option.splits)

lemma sorted_last_max: "sorted xs \<Longrightarrow> x \<in> set xs \<Longrightarrow> x \<le> last xs"
  by (induction xs) (auto split: if_splits)

lemma scan_back_last_occurrence:
  assumes "occ = filter (\<lambda>i. str_in command (lines ! i)) [0..<n]" and "occ \<noteq> []"
  shows "scan_back command lines n = Some (last occ)"
proof -
  from assms(2) have "last occ \<in> set occ" by simp
  with assms(1) have lt: "last occ < n" and hit: "str_in command (lines ! last occ)"
    by auto
  have srt: "sorted occ" unfolding assms(1) by (rule sorted_wrt_filter) simp
  from hit lt have "scan_back command lines n \<noteq> None"
    by (auto simp: scan_back_None)
  then obtain idx where sb: "scan_back command lines n = Some idx" by auto
  from scan_back_Some [OF sb]
  have i1: "idx < n" and i2: "str_in command (lines ! idx)"
    and i3: "\<forall>j. idx < j \<and> j < n \<longrightarrow> \<not> str_in command (lines ! j)" by auto
  from i1 i2 assms(1) have "idx \<in> set occ" by simp
  with srt have "idx \<le> last occ" by (rule sorted_last_max)
  moreover from i3 hit lt have "\<not> idx < last occ" by auto
  ultimately have "idx = last occ" by simp
  with sb show ?thesis by simp
qed

text \<open>
  Claim C3. For a non-empty \<open>sentText\<close>, let \<open>occ\<close> be the increasing list of the
  indices of the lines of \<open>output\<close> (split at newlines) that contain \<open>sentText\<close>. When
  \<open>occ\<close> is not empty, \<open>_trim_output_to_command(output, sentText)\<close> is the newline-join
  of the lines from the last index of \<open>occ\<close> to the end: the last occurrence wins.
\<close>

theorem trim_last_occurrence_wins:
  assumes "sentText \<noteq> []"
    and "occ = filter (\<lambda>i. str_in sentText (split_nl output ! i)) [0..<length (split_nl output)]"
    and "occ \<noteq> []"
  shows "trim_output_to_command output (Some sentText) = join_nl (drop (last occ) (split_nl output))"
proof -
  from assms(3) have "last occ \<in> set occ" by simp
  with assms(2) have hit: "str_in sentText (split_nl output ! last occ)"
    and lt: "last occ < length (split_nl output)" by auto
  from str_in_nonempty [OF hit assms(1)] have "split_nl output ! last occ \<noteq> []" .
  with lt have "output \<noteq> []" by auto
  moreover have "scan_back sentText (split_nl output) (length (split_nl output)) = Some (last occ)"
    using assms(2,3) by (rule scan_back_last_occurrence)
  ultimately show ?thesis
    using assms(1) by (simp add: trim_output_to_command_def)
qed

theorem trim_last_occurrence_wins_witness:
  "filter (\<lambda>i. str_in ''ls'' (split_nl (''$ ls'' @ [newline] @ ''foo'' @ [newline] @ ''$ ls'' @ [newline] @ ''bar'') ! i))
      [0..<length (split_nl (''$ ls'' @ [newline] @ ''foo'' @ [newline] @ ''$ ls'' @ [newline] @ ''bar''))] = [0, 2]
   \<and> trim_output_to_command (''$ ls'' @ [newline] @ ''foo'' @ [newline] @ ''$ ls'' @ [newline] @ ''bar'') (Some ''ls'')
      = ''$ ls'' @ [newline] @ ''bar''"
proof -
  let ?out = "''$ ls'' @ [newline] @ ''foo'' @ [newline] @ ''$ ls'' @ [newline] @ ''bar''"
  have sp: "split_nl ?out = [''$ ls'', ''foo'', ''$ ls'', ''bar'']"
    by (simp add: newline_def)
  have occ: "filter (\<lambda>i. str_in ''ls'' (split_nl ?out ! i)) [0..<length (split_nl ?out)] = [0, 2]"
    unfolding sp by simp
  from trim_last_occurrence_wins [of "''ls''" "[0, 2]" ?out] occ sp
  show ?thesis by (simp add: newline_def)
qed

text \<open>
  Claim C8. \<open>_trim_output_to_command(output, None)\<close> is \<open>output\<close>; and for a non-empty
  \<open>sentText\<close> that no line of \<open>output\<close> contains, the result is \<open>output\<close> unchanged
  (not the empty string).
\<close>

theorem trim_without_command_unchanged:
  "trim_output_to_command output None = output \<and>
   (sentText \<noteq> [] \<longrightarrow> (\<forall>l \<in> set (split_nl output). \<not> str_in sentText l) \<longrightarrow>
      trim_output_to_command output (Some sentText) = output)"
proof -
  have "scan_back sentText (split_nl output) (length (split_nl output)) = None"
    if "\<forall>l \<in> set (split_nl output). \<not> str_in sentText l"
    using that by (simp add: scan_back_None)
  then show ?thesis
    by (auto simp: trim_output_to_command_def)
qed

theorem trim_without_command_unchanged_witness:
  "''ls'' \<noteq> [] \<and> split_nl (''a$'' @ [newline] @ ''b'') = [''a$'', ''b''] \<and>
   \<not> str_in ''ls'' ''a$'' \<and> \<not> str_in ''ls'' ''b'' \<and>
   trim_output_to_command (''a$'' @ [newline] @ ''b'') (Some ''ls'') = ''a$'' @ [newline] @ ''b'' \<and>
   trim_output_to_command (''a$'' @ [newline] @ ''b'') None = ''a$'' @ [newline] @ ''b''"
proof -
  have ne: "''ls'' \<noteq> []" by simp
  have sp: "split_nl (''a$'' @ [newline] @ ''b'') = [''a$'', ''b'']"
    by (simp add: newline_def)
  have n1: "\<not> str_in ''ls'' ''a$''" by simp
  have n2: "\<not> str_in ''ls'' ''b''" by simp
  have no: "\<forall>l \<in> set (split_nl (''a$'' @ [newline] @ ''b'')). \<not> str_in ''ls'' l"
    unfolding sp using n1 n2 by simp
  from trim_without_command_unchanged [of "''a$'' @ [newline] @ ''b''" "''ls''"] ne no
  have t: "trim_output_to_command (''a$'' @ [newline] @ ''b'') (Some ''ls'') = ''a$'' @ [newline] @ ''b'' \<and>
     trim_output_to_command (''a$'' @ [newline] @ ''b'') None = ''a$'' @ [newline] @ ''b''"
    by blast
  from ne sp n1 n2 t show ?thesis by blast
qed

text \<open>
  Claim C10. For every \<open>output\<close> and optional \<open>command\<close>, the result of
  \<open>_trim_output_to_command\<close> is the newline-join of the lines of \<open>output\<close> from some
  line index \<open>k\<close> on, hence a suffix of \<open>output\<close> that starts at a line boundary; and it
  is non-empty whenever \<open>output\<close> is non-empty.
\<close>

theorem trim_is_line_suffix:
  "(\<exists>k < length (split_nl output).
      trim_output_to_command output command = join_nl (drop k (split_nl output))) \<and>
   suffix (trim_output_to_command output command) output \<and>
   (output \<noteq> [] \<longrightarrow> trim_output_to_command output command \<noteq> [])"
proof -
  let ?ls = "split_nl output"
  from trim_cases [of "output" command] show ?thesis
  proof
    assume same: "trim_output_to_command output command = output"
    have "0 < length ?ls" using split_nl_not_Nil [of "output"] by simp
    with same show ?thesis by (auto simp: join_split_nl intro: exI [of _ 0])
  next
    assume "\<exists>cmd idx. command = Some cmd \<and> cmd \<noteq> [] \<and> output \<noteq> [] \<and>
      scan_back cmd ?ls (length ?ls) = Some idx \<and>
      trim_output_to_command output command = join_nl (drop idx ?ls)"
    then obtain cmd idx where ne: "cmd \<noteq> []"
      and sb: "scan_back cmd ?ls (length ?ls) = Some idx"
      and eq: "trim_output_to_command output command = join_nl (drop idx ?ls)" by blast
    from scan_back_Some [OF sb] have lt: "idx < length ?ls" and hit: "str_in cmd (?ls ! idx)"
      by auto
    from str_in_nonempty [OF hit ne] have lne: "?ls ! idx \<noteq> []" .
    from lt have "drop idx ?ls = (?ls ! idx) # drop (Suc idx) ?ls"
      by (simp add: Cons_nth_drop_Suc)
    with lne have "join_nl (drop idx ?ls) \<noteq> []" by (simp add: join_nl_nonempty)
    moreover have "suffix (join_nl (drop idx ?ls)) output"
      using suffix_join_drop [of idx "split_nl output"] by (simp add: join_split_nl)
    ultimately show ?thesis using eq lt by auto
  qed
qed

theorem trim_is_line_suffix_witness:
  "''$ ls'' @ [newline] @ ''bar'' \<noteq> [] \<and>
   trim_output_to_command (''$ ls'' @ [newline] @ ''bar'') (Some ''bar'') \<noteq> []"
  using trim_is_line_suffix [of "''$ ls'' @ [newline] @ ''bar''" "Some ''bar''"]
  by (simp add: newline_def)

section \<open>The polling loop\<close>

lemma poll_tick_timeout:
  "elapsed t > real_of_int max_wait_sec \<Longrightarrow>
   poll_tick session_name command_sent max_wait_sec st t =
     (case capture_tmux_output (run t) session_name 100 of
        Inl e \<Rightarrow> Raise e
      | Inr current_output \<Rightarrow>
          Return (trim_output_to_command current_output command_sent, True, False))"
  by (simp add: poll_tick_def)

lemma poll_tick_Continue:
  "poll_tick session_name command_sent max_wait_sec st t = Continue st' \<Longrightarrow>
   \<exists>current_output.
     capture_tmux_output (run t) session_name 100 = Inr current_output \<and>
     st' = observe command_sent st current_output"
  by (auto simp: poll_tick_def Let_def split: if_splits sum.splits option.splits)

lemma poll_tick_Return:
  "poll_tick session_name command_sent max_wait_sec st t = Return (out, timed_out, session_exited) \<Longrightarrow>
   \<exists>current_output.
     capture_tmux_output (run t) session_name 100 = Inr current_output \<and>
     out = trim_output_to_command current_output command_sent \<and>
     (if elapsed t > real_of_int max_wait_sec then timed_out \<and> \<not> session_exited
      else if session_exists (run t) session_name = Inr False then \<not> timed_out \<and> session_exited
      else \<not> timed_out \<and> \<not> session_exited \<and>
           session_exists (run t) session_name = Inr True \<and>
           check_prompts (observe command_sent st current_output) out \<and>
           match_prompt (clean_last_line out) prompt_patterns \<noteq> None)"
  by (auto simp: poll_tick_def Let_def split: if_splits sum.splits option.splits)

lemma observe_latches:
  "(output_changed st \<longrightarrow> output_changed (observe command_sent st current_output)) \<and>
   (command_seen st \<longrightarrow> command_seen (observe command_sent st current_output))"
  by (simp add: observe_def Let_def)

text \<open>
  Claim C1. In an iteration of the polling loop whose elapsed time exceeds
  \<open>max_wait_sec\<close>, the timeout test comes first: the loop returns the timed-out outcome,
  with the trimmed capture of that iteration, whatever \<open>session_exists\<close> would answer
  (the witness takes an iteration at which the session no longer exists).
\<close>

theorem timeout_checked_before_liveness:
  assumes "elapsed t > real_of_int max_wait_sec"
    and "capture_tmux_output (run t) session_name 100 = Inr current_output"
  shows "poll_loop session_name command_sent max_wait_sec st (t # ts) =
           Some (Inr (trim_output_to_command current_output command_sent, True, False))"
  using assms by (simp add: poll_tick_timeout)

theorem timeout_checked_before_liveness_witness:
  "elapsed tick_late_and_gone > real_of_int 20 \<and>
   session_exists (run tick_late_and_gone) ''main'' = Inr False \<and>
   capture_tmux_output (run tick_late_and_gone) ''main'' 100 = Inr ''bye'' \<and>
   poll_loop ''main'' (Some ''ls'') 20 state_sent [tick_late_and_gone, tick_prompt_back] =
     Some (Inr (''bye'', True, False))"
proof -
  have e: "elapsed tick_late_and_gone > real_of_int 20"
    by (simp add: tick_late_and_gone_def)
  have c: "capture_tmux_output (run tick_late_and_gone) ''main'' 100 = Inr ''bye''"
    by (simp add: tick_late_and_gone_def capture_tmux_output_def tmux_pane_def capture_argv_def)
  have x: "session_exists (run tick_late_and_gone) ''main'' = Inr False"
    by (simp add: tick_late_and_gone_def session_exists_def tmux_pane_def exists_argv_def)
  have t: "trim_output_to_command ''bye'' (Some ''ls'') = ''bye''"
    by (simp add: trim_output_to_command_def newline_def numeral_3_eq_3)
  from timeout_checked_before_liveness [OF e c, of "Some ''ls''" state_sent "[tick_prompt_back]"]
    e c x t
  show ?thesis by simp
qed

lemma poll_states_latches:
  "s \<in> set (poll_states session_name command_sent max_wait_sec st ts) \<Longrightarrow>
   (output_changed st \<longrightarrow> output_changed s) \<and> (command_seen st \<longrightarrow> command_seen s)"
proof (induction ts arbitrary: st)
  case Nil
  then show ?case by simp
next
  case (Cons t ts)
  show ?case
  proof (cases "s = st")
    case True
    then show ?thesis by simp
  next
    case False
    with Cons.prems have "\<exists>st'.
        poll_tick session_name command_sent max_wait_sec st t = Continue st' \<and>
        s \<in> set (poll_states session_name command_sent max_wait_sec st' ts)"
      by (cases "poll_tick session_name command_sent max_wait_sec st t") auto
    then obtain st' where
      step: "poll_tick session_name command_sent max_wait_sec st t = Continue st'"
      and mem: "s \<in> set (poll_states session_name command_sent max_wait_sec st' ts)"
      by blast
    from poll_tick_Continue [OF step] obtain current_output
      where "st' = observe command_sent st current_output" by blast
    with observe_latches [of st command_sent current_output]
    have "(output_changed st \<longrightarrow> output_changed st') \<and> (command_seen st \<longrightarrow> command_seen st')"
      by simp
    with Cons.IH [OF mem] show ?thesis by blast
  qed
qed

lemma poll_states_drop:
  "i < length (poll_states session_name command_sent max_wait_sec st ts) \<Longrightarrow>
   \<exists>st'. drop i (poll_states session_name command_sent max_wait_sec st ts) =
           poll_states session_name command_sent max_wait_sec st' (drop i ts)"
proof (induction i arbitrary: st ts)
  case 0
  show ?case by (intro exI [of _ st]) simp
next
  case (Suc i)
  show ?case
  proof (cases ts)
    case Nil
    with Suc.prems show ?thesis by simp
  next
    case (Cons t ts')
    show ?thesis
    proof (cases "poll_tick session_name command_sent max_wait_sec st t")
      case (Continue st1)
      with Suc.prems Cons
      have "i < length (poll_states session_name command_sent max_wait_sec st1 ts')" by simp
      from Suc.IH [OF this] Continue Cons show ?thesis by simp
    next
      case (Return r)
      with Suc.prems Cons show ?thesis by simp
    next
      case (Raise e)
      with Suc.prems Cons show ?thesis by simp
    qed
  qed
qed

lemma poll_states_hd:
  "poll_states session_name command_sent max_wait_sec st ts ! 0 = st"
  by (cases ts) simp_all

text \<open>
  Claim C7. Along the sequence of poll states of one call, \<open>output_changed\<close> and
  \<open>command_seen\<close> only go from false to true: once one of them holds at an iteration,
  it holds at every later iteration.
\<close>

theorem latches_never_reset:
  assumes "i \<le> j"
    and "j < length (poll_states session_name command_sent max_wait_sec st ts)"
  shows "(output_changed (poll_states session_name command_sent max_wait_sec st ts ! i) \<longrightarrow>
            output_changed (poll_states session_name command_sent max_wait_sec st ts ! j)) \<and>
         (command_seen (poll_states session_name command_sent max_wait_sec st ts ! i) \<longrightarrow>
            command_seen (poll_states session_name command_sent max_wait_sec st ts ! j))"
proof -
  let ?ps = "poll_states session_name command_sent max_wait_sec st ts"
  from assms have i: "i < length ?ps" by simp
  from poll_states_drop [OF i] obtain st' where
    d: "drop i ?ps = poll_states session_name command_sent max_wait_sec st' (drop i ts)" by blast
  have "?ps ! i = drop i ?ps ! 0" using i by simp
  with d have si: "?ps ! i = st'" by (simp add: poll_states_hd)
  have "?ps ! j = drop i ?ps ! (j - i)" using assms by simp
  moreover have "j - i < length (drop i ?ps)" using assms by simp
  ultimately have "?ps ! j \<in> set (drop i ?ps)" by (metis nth_mem)
  with d have "?ps ! j \<in> set (poll_states session_name command_sent max_wait_sec st' (drop i ts))"
    by simp
  from poll_states_latches [OF this] si show ?thesis by simp
qed

theorem latches_never_reset_witness:
  "(1::nat) \<le> 2 \<and>
   2 < length (poll_states ''main'' (Some ''echo hi'') 20 state_sent
                 [tick_stale_prompt, tick_running, tick_running, tick_prompt_back]) \<and>
   \<not> output_changed (poll_states ''main'' (Some ''echo hi'') 20 state_sent
                 [tick_stale_prompt, tick_running, tick_running, tick_prompt_back] ! 1) \<and>
   output_changed (poll_states ''main'' (Some ''echo hi'') 20 state_sent
                 [tick_stale_prompt, tick_running, tick_running, tick_prompt_back] ! 2) \<and>
   output_changed (poll_states ''main'' (Some ''echo hi'') 20 state_sent
                 [tick_stale_prompt, tick_running, tick_running, tick_prompt_back] ! 3) \<and>
   command_seen (poll_states ''main'' (Some ''echo hi'') 20 state_sent
                 [tick_stale_prompt, tick_running, tick_running, tick_prompt_back] ! 2) \<and>
   command_seen (poll_states ''main'' (Some ''echo hi'') 20 state_sent
                 [tick_stale_prompt, tick_running, tick_running, tick_prompt_back] ! 3)"
proof -
  let ?ps = "poll_states ''main'' (Some ''echo hi'') 20 state_sent
               [tick_stale_prompt, tick_running, tick_running, tick_prompt_back]"
  have len: "3 < length ?ps" by code_simp
  have s1: "\<not> output_changed (?ps ! 1)" by code_simp
  have s2: "output_changed (?ps ! 2) \<and> command_seen (?ps ! 2)" by code_simp
  from latches_never_reset [of 2 3 "''main''" "Some ''echo hi''" 20 state_sent
      "[tick_stale_prompt, tick_running, tick_running, tick_prompt_back]"] len s1 s2
  show ?thesis by simp
qed

lemma poll_loop_Return:
  "poll_loop session_name command_sent max_wait_sec st ticks = Some (Inr r) \<Longrightarrow>
   \<exists>st' t. t \<in> set ticks \<and> poll_tick session_name command_sent max_wait_sec st' t = Return r"
proof (induction ticks arbitrary: st)
  case Nil
  then show ?case by simp
next
  case (Cons t ts)
  show ?case
  proof (cases "poll_tick session_name command_sent max_wait_sec st t")
    case (Return r')
    with Cons.prems have "r' = r" by simp
    with Return show ?thesis by auto
  next
    case (Raise e)
    with Cons.prems show ?thesis by simp
  next
    case (Continue st1)
    with Cons.prems have "poll_loop session_name command_sent max_wait_sec st1 ts = Some (Inr r)"
      by simp
    from Cons.IH [OF this] show ?thesis by auto
  qed
qed

text \<open>
  Claim C9. When a call returns the triple \<open>(final_output, timed_out, session_exited)\<close>,
  the two flags are never both true: the triple was returned by one iteration, at which
  \<open>timed_out\<close> holds exactly when the timeout test succeeded and \<open>session_exited\<close>
  exactly when it failed and the session was gone; on the remaining outcome, completion,
  both are false.
\<close>

theorem outcome_flags_exclusive:
  assumes "wait_for_output_completion run0 ticks session_name command_sent max_wait_sec
             pre_command_output = Some (Inr (final_output, timed_out, session_exited))"
  shows "\<not> (timed_out \<and> session_exited) \<and>
         (\<exists>st t. t \<in> set ticks \<and>
            poll_tick session_name command_sent max_wait_sec st t =
              Return (final_output, timed_out, session_exited) \<and>
            (timed_out \<longleftrightarrow> elapsed t > real_of_int max_wait_sec) \<and>
            (session_exited \<longleftrightarrow> \<not> elapsed t > real_of_int max_wait_sec \<and>
                                session_exists (run t) session_name = Inr False))"
proof -
  from assms obtain st0 where
    "poll_loop session_name command_sent max_wait_sec st0 ticks =
       Some (Inr (final_output, timed_out, session_exited))"
    by (auto simp: wait_for_output_completion_def split: sum.splits)
  from poll_loop_Return [OF this] obtain st t where mem: "t \<in> set ticks"
    and ret: "poll_tick session_name command_sent max_wait_sec st t =
                Return (final_output, timed_out, session_exited)" by blast
  from poll_tick_Return [OF ret]
  have flags: "(timed_out \<longleftrightarrow> elapsed t > real_of_int max_wait_sec) \<and>
     (session_exited \<longleftrightarrow> \<not> elapsed t > real_of_int max_wait_sec \<and>
                         session_exists (run t) session_name = Inr False)"
    by (auto split: if_splits)
  then have "\<not> (timed_out \<and> session_exited)" by blast
  with mem ret flags show ?thesis by blast
qed

theorem outcome_flags_exclusive_witness:
  "wait_for_output_completion (tmux_pane True []) [tick_running, tick_prompt_back] ''main''
     (Some ''echo hi'') 20 (Some ''user@host:~$ '') = Some (Inr (pane_after_echo, False, False)) \<and>
   wait_for_output_completion (tmux_pane True []) [tick_running, tick_late_and_gone] ''main''
     (Some ''echo hi'') 20 (Some ''user@host:~$ '') = Some (Inr (''bye'', True, False))"
proof -
  have a: "wait_for_output_completion (tmux_pane True []) [tick_running, tick_prompt_back] ''main''
     (Some ''echo hi'') 20 (Some ''user@host:~$ '') = Some (Inr (pane_after_echo, False, False))"
    by code_simp
  have b: "wait_for_output_completion (tmux_pane True []) [tick_running, tick_late_and_gone] ''main''
     (Some ''echo hi'') 20 (Some ''user@host:~$ '') = Some (Inr (''bye'', True, False))"
    by code_simp
  from outcome_flags_exclusive [OF a] outcome_flags_exclusive [OF b] a b
  show ?thesis by simp
qed

section \<open>Prompt checks\<close>

lemma observe_stale:
  assumes "last_output st = pre" and "\<not> output_changed st" and "\<not> command_seen st"
    and "\<not> command_in command_sent pre"
  shows "last_output (observe command_sent st pre) = pre \<and>
         \<not> output_changed (observe command_sent st pre) \<and>
         \<not> command_seen (observe command_sent st pre)"
  using assms by (simp add: observe_def Let_def)

lemma poll_loop_stale:
  assumes "\<not> command_in command_sent pre"
    and "\<forall>t \<in> set ticks. \<forall>c. capture_tmux_output (run t) session_name 100 = Inr c \<longrightarrow> c = pre"
    and "last_output st = pre" and "\<not> output_changed st" and "\<not> command_seen st"
  shows "poll_loop session_name command_sent max_wait_sec st ticks \<noteq> Some (Inr (out, False, False))"
  using assms(2-)
proof (induction ticks arbitrary: st)
  case Nil
  show ?case by simp
next
  case (Cons t ts)
  have cap: "\<And>c. capture_tmux_output (run t) session_name 100 = Inr c \<Longrightarrow> c = pre"
    using Cons.prems(1) by simp
  note stale = observe_stale [OF Cons.prems(2,3,4) assms(1)]
  show ?case
  proof (cases "poll_tick session_name command_sent max_wait_sec st t")
    case (Return r)
    have "r \<noteq> (out, False, False)"
    proof
      assume "r = (out, False, False)"
      with Return have ret: "poll_tick session_name command_sent max_wait_sec st t =
          Return (out, False, False)" by simp
      from poll_tick_Return [OF ret] obtain c where
        c: "capture_tmux_output (run t) session_name 100 = Inr c"
        and chk: "check_prompts (observe command_sent st c) out"
        by (auto split: if_splits)
      from cap [OF c] chk stale show False by (simp add: check_prompts_def)
    qed
    with Return show ?thesis by simp
  next
    case (Raise e)
    then show ?thesis by simp
  next
    case (Continue st1)
    from poll_tick_Continue [OF Continue] obtain c where
      c: "capture_tmux_output (run t) session_name 100 = Inr c"
      and st1: "st1 = observe command_sent st c" by blast
    from cap [OF c] st1 stale
    have "last_output st1 = pre" "\<not> output_changed st1" "\<not> command_seen st1" by simp_all
    moreover have "\<forall>t \<in> set ts. \<forall>c. capture_tmux_output (run t) session_name 100 = Inr c \<longrightarrow> c = pre"
      using Cons.prems(1) by simp
    ultimately have "poll_loop session_name command_sent max_wait_sec st1 ts \<noteq>
        Some (Inr (out, False, False))"
      using Cons.IH by blast
    with Continue show ?thesis by simp
  qed
qed

text \<open>
  Claim C2. An iteration returns the completed outcome only when, after the latch updates
  of that iteration, \<open>output_changed\<close> or \<open>command_seen\<close> holds and the trimmed capture
  is not empty. In particular, when \<open>pre_command_output\<close> is supplied, every capture
  equals it and the sent text does not occur in it, the call never returns the completed
  outcome, whatever the last line looks like (the witness has a last line ending in
  \<open>$\<close>).
\<close>

theorem prompt_check_needs_latch:
  "(poll_tick session_name command_sent max_wait_sec st t = Return (out, False, False) \<longrightarrow>
      (\<exists>current_output.
         capture_tmux_output (run t) session_name 100 = Inr current_output \<and>
         (output_changed (observe command_sent st current_output) \<or>
          command_seen (observe command_sent st current_output)) \<and>
         trim_output_to_command current_output command_sent \<noteq> [])) \<and>
   (\<not> command_in command_sent pre \<and>
    (\<forall>t \<in> set ticks. \<forall>c. capture_tmux_output (run t) session_name 100 = Inr c \<longrightarrow> c = pre) \<longrightarrow>
      wait_for_output_completion run0 ticks session_name command_sent max_wait_sec (Some pre) \<noteq>
        Some (Inr (out', False, False)))"
proof (intro conjI impI)
  assume ret: "poll_tick session_name command_sent max_wait_sec st t = Return (out, False, False)"
  from poll_tick_Return [OF ret] show "\<exists>current_output.
         capture_tmux_output (run t) session_name 100 = Inr current_output \<and>
         (output_changed (observe command_sent st current_output) \<or>
          command_seen (observe command_sent st current_output)) \<and>
         trim_output_to_command current_output command_sent \<noteq> []"
    by (auto simp: check_prompts_def split: if_splits)
next
  assume a: "\<not> command_in command_sent pre \<and>
    (\<forall>t \<in> set ticks. \<forall>c. capture_tmux_output (run t) session_name 100 = Inr c \<longrightarrow> c = pre)"
  let ?st = "\<lparr>last_output = pre, output_changed = False, command_seen = False\<rparr>"
  from a have init: "initial_state run0 session_name command_sent (Some pre) = Inr ?st"
    by (simp add: initial_state_def)
  have "poll_loop session_name command_sent max_wait_sec ?st ticks \<noteq>
      Some (Inr (out', False, False))"
    using a by (intro poll_loop_stale [where pre = pre]) simp_all
  with init show "wait_for_output_completion run0 ticks session_name command_sent max_wait_sec
      (Some pre) \<noteq> Some (Inr (out', False, False))"
    by (simp add: wait_for_output_completion_def)
qed

theorem prompt_check_needs_latch_witness:
  "poll_tick ''main'' (Some ''echo hi'') 20 state_sent tick_prompt_back =
     Return (pane_after_echo, False, False) \<and>
   capture_tmux_output (run tick_prompt_back) ''main'' 100 = Inr pane_after_echo \<and>
   command_seen (observe (Some ''echo hi'') state_sent pane_after_echo) \<and>
   \<not> command_in (Some ''echo hi'') ''user@host:~$ '' \<and>
   capture_tmux_output (run tick_stale_prompt) ''main'' 100 = Inr ''user@host:~$ '' \<and>
   match_prompt (clean_last_line ''user@host:~$ '') prompt_patterns = Some ''$'' \<and>
   wait_for_output_completion tmux_missing [tick_stale_prompt, tick_stale_prompt] ''main''
     (Some ''echo hi'') 20 (Some ''user@host:~$ '') = None \<and>
   wait_for_output_completion tmux_missing [tick_stale_prompt, tick_stale_prompt] ''main''
     (Some ''echo hi'') 20 (Some ''user@host:~$ '') \<noteq> Some (Inr (''user@host:~$ '', False, False))"
proof -
  have a: "poll_tick ''main'' (Some ''echo hi'') 20 state_sent tick_prompt_back =
     Return (pane_after_echo, False, False)" by code_simp
  have a1: "capture_tmux_output (run tick_prompt_back) ''main'' 100 = Inr pane_after_echo"
    by code_simp
  have a2: "command_seen (observe (Some ''echo hi'') state_sent pane_after_echo)"
    by code_simp
  have b: "\<not> command_in (Some ''echo hi'') ''user@host:~$ ''" by code_simp
  have cap: "capture_tmux_output (run tick_stale_prompt) ''main'' 100 = Inr ''user@host:~$ ''"
    by code_simp
  have c: "\<forall>t \<in> set [tick_stale_prompt, tick_stale_prompt].
      \<forall>c. capture_tmux_output (run t) ''main'' 100 = Inr c \<longrightarrow> c = ''user@host:~$ ''"
    using cap by simp
  have d: "match_prompt (clean_last_line ''user@host:~$ '') prompt_patterns = Some ''$''"
    by code_simp
  have e: "wait_for_output_completion tmux_missing [tick_stale_prompt, tick_stale_prompt] ''main''
     (Some ''echo hi'') 20 (Some ''user@host:~$ '') = None" by code_simp
  from prompt_check_needs_latch [where session_name = "''main''"
      and command_sent = "Some ''echo hi''" and max_wait_sec = 20 and st = state_sent
      and t = tick_prompt_back and out = pane_after_echo and pre = "''user@host:~$ ''"
      and ticks = "[tick_stale_prompt, tick_stale_prompt]" and ?run0.0 = tmux_missing
      and out' = "''user@host:~$ ''"] b c
  have f: "wait_for_output_completion tmux_missing [tick_stale_prompt, tick_stale_prompt] ''main''
     (Some ''echo hi'') 20 (Some ''user@host:~$ '') \<noteq> Some (Inr (''user@host:~$ '', False, False))"
    by blast
  from a a1 a2 b cap d e f show ?thesis by blast
qed


section \<open>The sanitizer and the session probe\<close>

lemma match_ansi_no_esc: "ESC \<noteq> c \<Longrightarrow> match_ansi (c # cs) = None"
  by (auto simp: match_ansi_def is_esc_def)

lemma strip_ansi_no_esc: "ESC \<notin> set s \<Longrightarrow> strip_ansi_escape_sequences s = s"
  by (induction s) (simp_all add: match_ansi_no_esc)

text \<open>
  Claim C4 states that the sanitizer is idempotent and that its result contains no escape
  byte. On the text \<open>ESC ESC [ m [ m\<close> the first escape byte starts no sequence and is
  kept, the sequence \<open>ESC [ m\<close> after it is removed, and the kept byte then stands in front
  of \<open>[ m\<close>: the result \<open>ESC [ m\<close> contains an escape byte, and a second pass gives the
  empty string.
\<close>

theorem sanitize_counterexample:
  "strip_ansi_escape_sequences nested_escape = [ESC, CHR ''['', CHR ''m''] \<and>
   strip_ansi_escape_sequences (strip_ansi_escape_sequences nested_escape) = [] \<and>
   strip_ansi_escape_sequences (strip_ansi_escape_sequences nested_escape) \<noteq>
     strip_ansi_escape_sequences nested_escape \<and>
   ESC \<in> set (strip_ansi_escape_sequences nested_escape)"
proof -
  have a: "strip_ansi_escape_sequences nested_escape = [ESC, CHR ''['', CHR ''m'']"
    by code_simp
  have b: "strip_ansi_escape_sequences [ESC, CHR ''['', CHR ''m''] = []"
    by code_simp
  from a b show ?thesis by simp
qed

text \<open>
  Claim C6 states that \<open>capture_tmux_output\<close> never propagates a failure of the external
  invocation. When the \<open>tmux\<close> binary cannot be started, \<open>subprocess.run\<close> raises
  \<open>FileNotFoundError\<close>, which neither \<open>except\<close> clause catches: the call raises instead
  of returning the empty string.
\<close>

theorem capture_propagates_counterexample:
  "capture_tmux_output tmux_missing ''main'' 100 = Inl (OtherError ''FileNotFoundError'') \<and>
   capture_tmux_output tmux_missing ''main'' 100 \<noteq> Inr []"
  by (simp add: capture_tmux_output_def tmux_missing_def)

text \<open>
  Claim C6, amended. \<open>capture_tmux_output\<close> returns the empty string when the invocation
  raises \<open>TimeoutExpired\<close> or \<open>CalledProcessError\<close>, returns the captured standard
  output when the process exits with status 0, and propagates an exception of any other
  class.
\<close>

theorem capture_failure_handling:
  "(subprocess_run (capture_argv session_name lines) = Inl TimeoutExpired \<or>
    subprocess_run (capture_argv session_name lines) = Inl CalledProcessError \<longrightarrow>
      capture_tmux_output subprocess_run session_name lines = Inr []) \<and>
   (subprocess_run (capture_argv session_name lines) = Inr result \<and> returncode result = 0 \<longrightarrow>
      capture_tmux_output subprocess_run session_name lines = Inr (stdout result)) \<and>
   (subprocess_run (capture_argv session_name lines) = Inl (OtherError name) \<longrightarrow>
      capture_tmux_output subprocess_run session_name lines = Inl (OtherError name))"
  by (auto simp: capture_tmux_output_def)

theorem capture_failure_handling_witness:
  "tmux_hangs (capture_argv ''main'' 100) = Inl TimeoutExpired \<and>
   capture_tmux_output tmux_hangs ''main'' 100 = Inr [] \<and>
   capture_argv ''main'' 100 = [''tmux'', ''capture-pane'', ''-t'', ''main'', ''-p'', ''-S'', ''-100''] \<and>
   tmux_pane True ''bye'' (capture_argv ''main'' 100) =
     Inr \<lparr>returncode = 0, stdout = ''bye'', stderr = []\<rparr> \<and>
   capture_tmux_output (tmux_pane True ''bye'') ''main'' 100 = Inr ''bye'' \<and>
   tmux_missing (capture_argv ''main'' 100) = Inl (OtherError ''FileNotFoundError'') \<and>
   capture_tmux_output tmux_missing ''main'' 100 = Inl (OtherError ''FileNotFoundError'')"
proof -
  have a: "tmux_hangs (capture_argv ''main'' 100) = Inl TimeoutExpired"
    by (simp add: tmux_hangs_def)
  have b: "tmux_pane True ''bye'' (capture_argv ''main'' 100) =
     Inr \<lparr>returncode = 0, stdout = ''bye'', stderr = []\<rparr>"
    by (simp add: tmux_pane_def capture_argv_def)
  have c: "tmux_missing (capture_argv ''main'' 100) = Inl (OtherError ''FileNotFoundError'')"
    by (simp add: tmux_missing_def)
  have d: "capture_argv ''main'' 100 =
      [''tmux'', ''capture-pane'', ''-t'', ''main'', ''-p'', ''-S'', ''-100'']"
    by code_simp
  from capture_failure_handling [of tmux_hangs "''main''" 100]
    capture_failure_handling [of "tmux_pane True ''bye''" "''main''" 100
      "\<lparr>returncode = 0, stdout = ''bye'', stderr = []\<rparr>"]
    capture_failure_handling [of tmux_missing "''main''" 100 _ "''FileNotFoundError''"]
    a b c d
  show ?thesis by simp
qed

section \<open>The line tested against the prompt patterns\<close>


















section \<open>Texts whose escape bytes start complete sequences\<close>

lemma not_esc_classes:
  "is_second c \<Longrightarrow> c \<noteq> ESC" "is_param c \<Longrightarrow> c \<noteq> ESC"
  "is_inter c \<Longrightarrow> c \<noteq> ESC" "is_final c \<Longrightarrow> c \<noteq> ESC"
  by (auto simp: is_second_def is_param_def is_inter_def is_final_def in_range_def ESC_def)

lemma match_class_consumes:
  assumes "match_class P k xs = Some r"
    and "\<And>c. P c \<Longrightarrow> c \<noteq> ESC"
    and "\<And>ys q. k ys = Some q \<Longrightarrow> \<exists>m. ys = m @ q \<and> ESC \<notin> set m"
  shows "\<exists>m. xs = m @ r \<and> ESC \<notin> set m"
proof (cases xs)
  case Nil
  with assms(1) show ?thesis by simp
next
  case (Cons y ys)
  with assms(1) have p: "P y" and k: "k ys = Some r" by (auto split: if_splits)
  from assms(3) [OF k] obtain m where "ys = m @ r" "ESC \<notin> set m" by blast
  with Cons assms(2) [OF p] have "xs = (y # m) @ r \<and> ESC \<notin> set (y # m)" by auto
  then show ?thesis by blast
qed

lemma match_star_consumes:
  assumes "match_star P k xs = Some r"
    and "\<And>c. P c \<Longrightarrow> c \<noteq> ESC"
    and "\<And>ys q. k ys = Some q \<Longrightarrow> \<exists>m. ys = m @ q \<and> ESC \<notin> set m"
  shows "\<exists>m. xs = m @ r \<and> ESC \<notin> set m"
  using assms(1)
proof (induction xs)
  case Nil
  then have "k [] = Some r" by simp
  from assms(3) [OF this] show ?case .
next
  case (Cons y ys)
  show ?case
  proof (cases "P y \<and> match_star P k ys \<noteq> None")
    case True
    with Cons.prems have "match_star P k ys = Some r" by auto
    from Cons.IH [OF this] obtain m where "ys = m @ r" "ESC \<notin> set m" by blast
    with True assms(2) have "y # ys = (y # m) @ r \<and> ESC \<notin> set (y # m)" by auto
    then show ?thesis by blast
  next
    case False
    with Cons.prems have "k (y # ys) = Some r" by (auto split: if_splits option.splits)
    from assms(3) [OF this] show ?thesis .
  qed
qed

lemma match_ansi_consumes:
  assumes "match_ansi (c # cs) = Some rest"
  shows "c = ESC \<and> (\<exists>m. cs = m @ rest \<and> ESC \<notin> set m)"
proof -
  have fin: "\<exists>m. ys = m @ q \<and> ESC \<notin> set m" if "match_class is_final Some ys = Some q" for ys q
    using that by (rule match_class_consumes) (auto simp: not_esc_classes)
  have inter: "\<exists>m. ys = m @ q \<and> ESC \<notin> set m"
    if "match_star is_inter (match_class is_final Some) ys = Some q" for ys q
    using that by (rule match_star_consumes) (auto simp: not_esc_classes dest: fin)
  have param: "\<exists>m. ys = m @ q \<and> ESC \<notin> set m"
    if "match_star is_param (match_star is_inter (match_class is_final Some)) ys = Some q"
    for ys q
    using that by (rule match_star_consumes) (auto simp: not_esc_classes dest: inter)
  from assms have e: "c = ESC"
    and sec: "match_class is_second
       (match_star is_param (match_star is_inter (match_class is_final Some))) cs = Some rest"
    by (auto simp: match_ansi_def is_esc_def split: if_splits)
  from sec have "\<exists>m. cs = m @ rest \<and> ESC \<notin> set m"
    by (rule match_class_consumes) (auto simp: not_esc_classes dest: param)
  with e show ?thesis by simp
qed

lemma escapes_complete_skip:
  "ESC \<notin> set m \<Longrightarrow> escapes_complete (m @ rest) = escapes_complete rest"
  by (induction m) (auto simp: is_esc_def)

lemma strip_ansi_complete:
  "escapes_complete s \<Longrightarrow> ESC \<notin> set (strip_ansi_escape_sequences s)"
proof (induction s rule: strip_ansi_escape_sequences.induct)
  case 1
  show ?case by simp
next
  case (2 c cs)
  show ?case
  proof (cases "match_ansi (c # cs)")
    case None
    with "2.prems" have ne: "c \<noteq> ESC" and cc: "escapes_complete cs"
      by (auto simp: is_esc_def)
    from "2.IH"(1) [OF None cc] ne None show ?thesis by auto
  next
    case (Some rest)
    from match_ansi_consumes [OF Some] obtain m where "cs = m @ rest" "ESC \<notin> set m" by blast
    with "2.prems" have "escapes_complete rest" by (simp add: escapes_complete_skip)
    from "2.IH"(2) [OF Some this] Some show ?thesis by simp
  qed
qed

lemma strip_ansi_incomplete:
  "\<not> escapes_complete s \<Longrightarrow> ESC \<in> set (strip_ansi_escape_sequences s)"
proof (induction s rule: strip_ansi_escape_sequences.induct)
  case 1
  then show ?case by simp
next
  case (2 c cs)
  show ?case
  proof (cases "match_ansi (c # cs)")
    case None
    show ?thesis
    proof (cases "c = ESC")
      case True
      with None show ?thesis by simp
    next
      case False
      with "2.prems" have "\<not> escapes_complete cs" by (simp add: is_esc_def)
      from "2.IH"(1) [OF None this] None show ?thesis by simp
    qed
  next
    case (Some rest)
    from match_ansi_consumes [OF Some] obtain m where "cs = m @ rest" "ESC \<notin> set m" by blast
    with "2.prems" Some have "\<not> escapes_complete rest" by (simp add: escapes_complete_skip)
    from "2.IH"(2) [OF Some this] Some show ?thesis by simp
  qed
qed

text \<open>
  Claim C4, amended. On every text in which each escape byte starts a complete escape
  sequence, the sanitizer is idempotent and its result contains no escape byte; on every
  other text the result still contains an escape byte.
\<close>

theorem sanitize_idempotent_on_complete_escapes:
  "(escapes_complete s \<longrightarrow>
      strip_ansi_escape_sequences (strip_ansi_escape_sequences s) = strip_ansi_escape_sequences s \<and>
      ESC \<notin> set (strip_ansi_escape_sequences s)) \<and>
   (\<not> escapes_complete s \<longrightarrow> ESC \<in> set (strip_ansi_escape_sequences s))"
proof (intro conjI impI)
  assume c: "escapes_complete s"
  from strip_ansi_complete [OF c]
  show "ESC \<notin> set (strip_ansi_escape_sequences s)" .
  then show "strip_ansi_escape_sequences (strip_ansi_escape_sequences s) =
      strip_ansi_escape_sequences s" by (rule strip_ansi_no_esc)
next
  assume "\<not> escapes_complete s"
  then show "ESC \<in> set (strip_ansi_escape_sequences s)" by (rule strip_ansi_incomplete)
qed

theorem sanitize_idempotent_on_complete_escapes_witness:
  "escapes_complete coloured_prompt \<and>
   strip_ansi_escape_sequences coloured_prompt = ''user@host:~$'' \<and>
   strip_ansi_escape_sequences (strip_ansi_escape_sequences coloured_prompt) =
     strip_ansi_escape_sequences coloured_prompt \<and>
   ESC \<notin> set (strip_ansi_escape_sequences coloured_prompt) \<and>
   \<not> escapes_complete nested_escape \<and>
   ESC \<in> set (strip_ansi_escape_sequences nested_escape)"
proof -
  have a: "escapes_complete coloured_prompt" by code_simp
  have b: "strip_ansi_escape_sequences coloured_prompt = ''user@host:~$''" by code_simp
  have c: "\<not> escapes_complete nested_escape" by code_simp
  from sanitize_idempotent_on_complete_escapes [of coloured_prompt]
    sanitize_idempotent_on_complete_escapes [of nested_escape] a b c
  show ?thesis by blast
qed

end
